theory Spec2Isabelle
  imports Main "HOL-Library.Char_ord" "HOL-Library.List_Lexorder" "HOL-Library.Sublist"
    "HOL-Library.Word"
begin

section \<open>The language-file build task (gulp/task-build-lang.js)\<close>

text \<open>
  The task merges the per-component language files of one language into a single JSON
  file. This theory embeds the class \<^verbatim>\<open>BuildLangTask\<close>: the candidate paths computed by
  \<^verbatim>\<open>run\<close>, the ingestion of one file by \<^verbatim>\<open>treatFile\<close>, and the prefixing, ordering and
  serialisation done by \<^verbatim>\<open>treatMergedData\<close> and \<^verbatim>\<open>addProperties\<close>.

  Conventions of the embedding.
  \<^item> A JavaScript string is a \<^typ>\<open>string\<close>: one \<^typ>\<open>char\<close> per UTF-16 code unit, for
    code units below 256. The default order of \<^verbatim>\<open>Array.prototype.sort\<close> compares code
    units, which is the lexicographic order of \<^typ>\<open>string\<close> over the order of \<^typ>\<open>char\<close>.
    A key with larger code units is the list of its 16-bit code units; the assignment to
    a property and the ordering of the keys are defined for keys of either kind.
  \<^item> A JavaScript object used as a table is the list of its properties in the order in
    which they were created (the order of \<^verbatim>\<open>for ... in\<close> and \<^verbatim>\<open>Object.keys\<close> for names
    that are not array indices). Assigning to an existing name keeps its position. An
    assignment to the name \<^verbatim>\<open>__proto__\<close>, which JavaScript reads as an access to the
    prototype, is outside the model: the name is treated as an ordinary one.
  \<^item> \<^verbatim>\<open>undefined\<close> is \<^const>\<open>None\<close>.
  \<^item> \<^verbatim>\<open>JSON.parse\<close> is a parameter of the model: it maps a text to a value, or to the
    message of the \<^verbatim>\<open>SyntaxError\<close> it throws.
\<close>

subsection \<open>Strings and arrays\<close>

definition backslash :: char where
  "backslash = CHR 0x5C"

definition dquote :: char where
  "dquote = CHR 0x22"

definition newline :: char where
  "newline = CHR 0x0A"

text \<open>
  A string as the list of its UTF-16 code units, and the code units of a string of the
  8-bit model.
\<close>

type_synonym utf16 = "16 word list"

definition utf16_of :: "string \<Rightarrow> utf16" where
  "utf16_of s = map (\<lambda>c. of_nat (of_char c)) s"

text \<open>The separator class of the regular expression in \<^verbatim>\<open>filepath.split\<close>: slash or backslash.\<close>

definition isSep :: "char \<Rightarrow> bool" where
  "isSep c \<longleftrightarrow> c = CHR ''/'' \<or> c = backslash"

text \<open>
  \<^verbatim>\<open>String.prototype.split\<close> with that separator: \<open>splitAcc cur s\<close> splits \<open>s\<close>, where
  \<open>cur\<close> is the part of the current segment already read. The result is never empty.
\<close>

fun splitAcc :: "string \<Rightarrow> string \<Rightarrow> string list" where
  "splitAcc cur [] = [cur]"
| "splitAcc cur (c # cs) =
     (if isSep c then cur # splitAcc [] cs else splitAcc (cur @ [c]) cs)"

definition split :: "string \<Rightarrow> string list" where
  "split s = splitAcc [] s"

text \<open>\<^verbatim>\<open>Array.prototype.pop\<close> and \<^verbatim>\<open>shift\<close> (the array that remains; no effect on \<open>[]\<close>).\<close>

definition pop :: "'a list \<Rightarrow> 'a list" where
  "pop xs = butlast xs"

definition shift :: "'a list \<Rightarrow> 'a list" where
  "shift xs = tl xs"

text \<open>Reading \<^verbatim>\<open>xs[i]\<close>: \<^verbatim>\<open>undefined\<close> out of range.\<close>

definition idx :: "'a list \<Rightarrow> nat \<Rightarrow> 'a option" where
  "idx xs i = (if i < length xs then Some (xs ! i) else None)"

text \<open>The string that \<^verbatim>\<open>+\<close> concatenates for a string or \<^verbatim>\<open>undefined\<close>.\<close>

fun toString :: "string option \<Rightarrow> string" where
  "toString None = ''undefined''"
| "toString (Some s) = s"

text \<open>\<^verbatim>\<open>Array.prototype.join\<close> on an array of strings.\<close>

fun join :: "string \<Rightarrow> string list \<Rightarrow> string" where
  "join s [] = []"
| "join s [x] = x"
| "join s (x # y # ys) = x @ s @ join s (y # ys)"

text \<open>\<^verbatim>\<open>path.slice(-1)\<close>: the last character as a string, empty for the empty string.\<close>

definition slice_last :: "string \<Rightarrow> string" where
  "slice_last s = (if s = [] then [] else [last s])"

text \<open>
  \<^verbatim>\<open>String.prototype.lastIndexOf\<close>: the greatest position at which \<open>pat\<close> occurs in \<open>s\<close>,
  or \<open>-1\<close>.
\<close>

definition lastIndexOf :: "string \<Rightarrow> string \<Rightarrow> int" where
  "lastIndexOf s pat =
     (case filter (\<lambda>i. take (length pat) (drop i s) = pat) (rev [0..<Suc (length s)]) of
        [] \<Rightarrow> - 1
      | i # _ \<Rightarrow> int i)"

text \<open>\<^verbatim>\<open>String.prototype.substr\<close> with one argument; a negative start counts from the end.\<close>

definition substr :: "string \<Rightarrow> int \<Rightarrow> string" where
  "substr s start =
     (if start < 0 then drop (nat (int (length s) + start)) s else drop (nat start) s)"

subsection \<open>Candidate paths (\<^verbatim>\<open>run\<close>, the map over \<^verbatim>\<open>langPaths\<close>)\<close>

definition candidatePath :: "string \<Rightarrow> string \<Rightarrow> string" where
  "candidatePath language path =
     (let path' = (if slice_last path \<noteq> ''/'' then path @ ''/'' else path)
      in path' @ language @ ''.json'')"

definition paths :: "string \<Rightarrow> string list \<Rightarrow> string list" where
  "paths language langPaths = map (candidatePath language) langPaths"

subsection \<open>JSON values and objects\<close>

text \<open>
  A number carries the text that \<^verbatim>\<open>JSON.stringify\<close> prints for it. An object carries its
  properties in enumeration order.
\<close>

datatype json =
    JNull
  | JBool bool
  | JNum string
  | JStr string
  | JArr "json list"
  | JObj "(string \<times> json) list"

type_synonym 'v obj = "(string \<times> 'v) list"

text \<open>The assignment \<^verbatim>\<open>o[k] = v\<close>.\<close>

fun objSet :: "('k \<times> 'v) list \<Rightarrow> 'k \<Rightarrow> 'v \<Rightarrow> ('k \<times> 'v) list" where
  "objSet [] k v = [(k, v)]"
| "objSet ((k', v') # ps) k v =
     (if k' = k then (k, v) # ps else (k', v') # objSet ps k v)"

definition digitChar :: "nat \<Rightarrow> char" where
  "digitChar d = ''0123456789'' ! d"

fun showNat :: "nat \<Rightarrow> string" where
  "showNat n = (if n < 10 then [digitChar n] else showNat (n div 10) @ [digitChar (n mod 10)])"

text \<open>
  The properties that \<^verbatim>\<open>for (let property in source)\<close> visits, each with the value
  \<^verbatim>\<open>source[property]\<close>: the members of an object, the elements of an array and the
  characters of a string under their indices, nothing for the other values.
\<close>

fun props :: "json \<Rightarrow> json obj" where
  "props (JObj kvs) = kvs"
| "props (JArr xs) = zip (map showNat [0..<length xs]) xs"
| "props (JStr s) = zip (map showNat [0..<length s]) (map (\<lambda>c. JStr [c]) s)"
| "props JNull = []"
| "props (JBool b) = []"
| "props (JNum n) = []"

subsection \<open>\<^verbatim>\<open>addProperties\<close>\<close>

definition addProperties :: "json obj \<Rightarrow> json \<Rightarrow> string \<Rightarrow> json obj" where
  "addProperties target source pfx =
     foldl (\<lambda>t (property, v). objSet t (pfx @ property) v) target (props source)"

subsection \<open>\<^verbatim>\<open>treatFile\<close>\<close>

text \<open>The contents of a vinyl file: null, a stream, or a buffer (here its text).\<close>

datatype contents = NullContents | StreamContents | BufferContents string

record vinyl =
  path :: string
  contents :: contents

text \<open>What the task accumulates and what it prints with \<^verbatim>\<open>console.log\<close>.\<close>

record state =
  data :: "json obj"
  console :: "string list"

type_synonym parser = "string \<Rightarrow> string + json"

text \<open>A \<^verbatim>\<open>SyntaxError\<close> with message \<open>msg\<close>, converted to a string.\<close>

definition errorToString :: "string \<Rightarrow> string" where
  "errorToString msg = (if msg = [] then ''SyntaxError'' else ''SyntaxError: '' @ msg)"

text \<open>The key under which \<^verbatim>\<open>treatFile\<close> stores a file.\<close>

definition relPath :: "string \<Rightarrow> string" where
  "relPath p =
     (let srcPos = lastIndexOf p ''/src/'';
          srcPos' = (if srcPos = - 1
                     then lastIndexOf p ([backslash] @ ''src'' @ [backslash])
                     else srcPos)
      in substr p (srcPos' + 5))"

definition treatFile :: "parser \<Rightarrow> state \<Rightarrow> vinyl \<Rightarrow> state" where
  "treatFile parse st f =
     (case contents f of
        NullContents \<Rightarrow> st
      | StreamContents \<Rightarrow> st
      | BufferContents text \<Rightarrow>
          (let p = relPath (path f)
           in case parse text of
                Inr v \<Rightarrow> st\<lparr>data := objSet (data st) p v\<rparr>
              | Inl msg \<Rightarrow>
                  st\<lparr>console := console st @ [''Error parsing JSON: '' @ errorToString msg]\<rparr>))"

text \<open>The files of one run, in the order in which the stream delivers them.\<close>

definition initial :: state where
  "initial = \<lparr>data = [], console = []\<rparr>"

definition treatFiles :: "parser \<Rightarrow> vinyl list \<Rightarrow> state" where
  "treatFiles parse fs = foldl (treatFile parse) initial fs"

subsection \<open>\<^verbatim>\<open>treatMergedData\<close>\<close>

text \<open>The \<^verbatim>\<open>switch\<close> on \<^verbatim>\<open>pathSplit[0]\<close>; \<^const>\<open>None\<close> when no case assigns \<^verbatim>\<open>prefix\<close>.\<close>

definition switchPrefix :: "string list \<Rightarrow> string option" where
  "switchPrefix pathSplit =
     (if idx pathSplit 0 = Some ''lang'' then Some ''core''
      else if idx pathSplit 0 = Some ''core'' then
        (if idx pathSplit 1 = Some ''lang'' then Some ''core''
         else Some (''core.'' @ toString (idx pathSplit 1)))
      else if idx pathSplit 0 = Some ''addon'' then
        Some (''addon.'' @ join ''_'' (shift (pop pathSplit)))
      else if idx pathSplit 0 = Some ''assets'' then
        Some (''assets.'' @ toString (idx pathSplit 1))
      else None)"

definition filePrefix :: "string \<Rightarrow> string option" where
  "filePrefix filepath = switchPrefix (pop (split filepath))"

text \<open>The test \<^verbatim>\<open>if (prefix)\<close>: neither \<^verbatim>\<open>undefined\<close> nor the empty string.\<close>

definition truthy :: "string option \<Rightarrow> bool" where
  "truthy pfx \<longleftrightarrow> pfx \<noteq> None \<and> pfx \<noteq> Some []"

text \<open>The body of the loop over \<^verbatim>\<open>data\<close>, and the loop.\<close>

definition mergeFile :: "json obj \<Rightarrow> string \<times> json \<Rightarrow> json obj" where
  "mergeFile merged entry =
     (let pfx = filePrefix (fst entry)
      in if truthy pfx then addProperties merged (snd entry) (toString pfx @ ''.'')
         else merged)"

definition mergeData :: "json obj \<Rightarrow> json obj" where
  "mergeData d = foldl mergeFile [] d"

text \<open>
  \<^verbatim>\<open>Object.keys(merged).sort().forEach(...)\<close>: the keys in ascending order, each stored
  with its value in a new object. Every key that is visited has a value. Without a
  comparison function \<^verbatim>\<open>sort\<close> compares two strings code unit by code unit: the order of
  the keys is the lexicographic order of lists over the order of the code units, for
  \<^typ>\<open>string\<close> and for \<^typ>\<open>utf16\<close>.
\<close>

definition orderKeys :: "('k::linorder \<times> 'v) list \<Rightarrow> ('k \<times> 'v) list" where
  "orderKeys merged =
     foldl (\<lambda>ordered key. case map_of merged key of
                              Some v \<Rightarrow> objSet ordered key v
                            | None \<Rightarrow> ordered)
       [] (sort (map fst merged))"

definition mergedOrdered :: "json obj \<Rightarrow> json obj" where
  "mergedOrdered d = orderKeys (mergeData d)"

text \<open>
  \<^verbatim>\<open>JSON.stringify(value, null, 4)\<close>. Strings are quoted with the escapes of
  \<^verbatim>\<open>QuoteJSONString\<close>; the gap is four spaces; \<open>serialize ind v\<close> prints \<open>v\<close> where the
  current indentation is \<open>ind\<close>.
\<close>

definition hexDigit :: "nat \<Rightarrow> char" where
  "hexDigit d = ''0123456789abcdef'' ! d"

definition quoteChar :: "char \<Rightarrow> string" where
  "quoteChar c =
     (let n = (of_char c :: nat) in
      if n = 8 then [backslash, CHR ''b'']
      else if n = 9 then [backslash, CHR ''t'']
      else if n = 10 then [backslash, CHR ''n'']
      else if n = 12 then [backslash, CHR ''f'']
      else if n = 13 then [backslash, CHR ''r'']
      else if c = dquote then [backslash, dquote]
      else if c = backslash then [backslash, backslash]
      else if n < 32 then
        [backslash, CHR ''u'', CHR ''0'', CHR ''0'', hexDigit (n div 16), hexDigit (n mod 16)]
      else [c])"

definition quoteJSON :: "string \<Rightarrow> string" where
  "quoteJSON s = [dquote] @ concat (map quoteChar s) @ [dquote]"

definition gap :: string where
  "gap = replicate 4 (CHR '' '')"

fun serialize :: "string \<Rightarrow> json \<Rightarrow> string" where
  "serialize ind JNull = ''null''"
| "serialize ind (JBool b) = (if b then ''true'' else ''false'')"
| "serialize ind (JNum n) = n"
| "serialize ind (JStr s) = quoteJSON s"
| "serialize ind (JArr xs) =
     (if xs = [] then ''[]''
      else ''['' @ [newline] @ (ind @ gap)
           @ join ('','' @ [newline] @ (ind @ gap)) (map (serialize (ind @ gap)) xs)
           @ [newline] @ ind @ '']'')"
| "serialize ind (JObj kvs) =
     (if kvs = [] then ''{}''
      else ''{'' @ [newline] @ (ind @ gap)
           @ join ('','' @ [newline] @ (ind @ gap))
               (map (\<lambda>kv. quoteJSON (fst kv) @ '': '' @ serialize (ind @ gap) (snd kv)) kvs)
           @ [newline] @ ind @ ''}'')"

definition stringify :: "json \<Rightarrow> string" where
  "stringify v = serialize [] v"

text \<open>\<^verbatim>\<open>bufferFrom\<close> on a string: its UTF-8 encoding.\<close>

definition utf8 :: "char \<Rightarrow> 8 word list" where
  "utf8 c =
     (let n = (of_char c :: nat) in
      if n < 128 then [of_nat n] else [of_nat (192 + n div 64), of_nat (128 + n mod 64)])"

definition bufferFrom :: "string \<Rightarrow> 8 word list" where
  "bufferFrom s = concat (map utf8 s)"

definition treatMergedData :: "json obj \<Rightarrow> 8 word list" where
  "treatMergedData d = bufferFrom (stringify (JObj (mergedOrdered d)))"

text \<open>
  The end of the stream in \<^verbatim>\<open>run\<close>: when a first file was seen, the contents of the
  joined file; otherwise no file is emitted.
\<close>

definition joinedContents :: "parser \<Rightarrow> vinyl list \<Rightarrow> 8 word list option" where
  "joinedContents parse fs =
     (case fs of
        [] \<Rightarrow> None
      | firstFile # _ \<Rightarrow> Some (treatMergedData (data (treatFiles parse fs))))"

section \<open>The specification's wording, for comparison\<close>

text \<open>
  The specification asks the path resolver to normalise a directory so that it ends with
  exactly one path separator.
\<close>

definition spec_oneSeparator :: "string \<Rightarrow> bool" where
  "spec_oneSeparator dir \<longleftrightarrow>
     dir \<noteq> [] \<and> last dir = CHR ''/''
     \<and> \<not> (butlast dir \<noteq> [] \<and> last (butlast dir) = CHR ''/'')"

text \<open>
  The specification orders the keys by bytes or code points. The code points of a string
  of UTF-16 code units (a high surrogate followed by a low surrogate is one code point),
  and its bytes in UTF-8.
\<close>

definition isHigh :: "16 word \<Rightarrow> bool" where
  "isHigh c \<longleftrightarrow> 0xD800 \<le> c \<and> c \<le> 0xDBFF"

definition isLow :: "16 word \<Rightarrow> bool" where
  "isLow c \<longleftrightarrow> 0xDC00 \<le> c \<and> c \<le> 0xDFFF"

fun codepoints :: "utf16 \<Rightarrow> nat list" where
  "codepoints [] = []"
| "codepoints [c] = [unat c]"
| "codepoints (c # d # cs) =
     (if isHigh c \<and> isLow d
      then (0x10000 + (unat c - 0xD800) * 0x400 + (unat d - 0xDC00)) # codepoints cs
      else unat c # codepoints (d # cs))"

definition spec_utf8 :: "nat \<Rightarrow> 8 word list" where
  "spec_utf8 n =
     (if n < 0x80 then [of_nat n]
      else if n < 0x800 then [of_nat (0xC0 + n div 0x40), of_nat (0x80 + n mod 0x40)]
      else if n < 0x10000 then
        [of_nat (0xE0 + n div 0x1000), of_nat (0x80 + n div 0x40 mod 0x40),
         of_nat (0x80 + n mod 0x40)]
      else
        [of_nat (0xF0 + n div 0x40000), of_nat (0x80 + n div 0x1000 mod 0x40),
         of_nat (0x80 + n div 0x40 mod 0x40), of_nat (0x80 + n mod 0x40)])"

definition spec_bytes :: "utf16 \<Rightarrow> 8 word list" where
  "spec_bytes k = concat (map spec_utf8 (codepoints k))"

text \<open>
  The merged table as the specification describes it: every successfully parsed fragment,
  in the order of ingestion, stores its keys under its prefix, overwriting earlier values.
  The vocabulary: the fragment of a file (its relative path and its parsed value, when
  \<^verbatim>\<open>treatFile\<close> stores one), the fragments of a run, the qualified entries that one
  fragment contributes, and a sequence of assignments to an object.
\<close>

definition fragment :: "parser \<Rightarrow> vinyl \<Rightarrow> (string \<times> json) option" where
  "fragment parse f =
     (case contents f of
        NullContents \<Rightarrow> None
      | StreamContents \<Rightarrow> None
      | BufferContents text \<Rightarrow>
          (case parse text of Inr v \<Rightarrow> Some (relPath (path f), v) | Inl msg \<Rightarrow> None))"

definition fragments :: "parser \<Rightarrow> vinyl list \<Rightarrow> (string \<times> json) list" where
  "fragments parse fs = List.map_filter (fragment parse) fs"

definition contribution :: "string \<times> json \<Rightarrow> json obj" where
  "contribution entry =
     (case filePrefix (fst entry) of
        None \<Rightarrow> []
      | Some pfx \<Rightarrow> map (\<lambda>(k, v). (pfx @ ''.'' @ k, v)) (props (snd entry)))"

definition setAll :: "('k \<times> 'v) list \<Rightarrow> ('k \<times> 'v) list \<Rightarrow> ('k \<times> 'v) list" where
  "setAll target kvs = foldl (\<lambda>t (k, v). objSet t k v) target kvs"

definition spec_merged :: "parser \<Rightarrow> vinyl list \<Rightarrow> json obj" where
  "spec_merged parse fs = setAll [] (concat (map contribution (fragments parse fs)))"

text \<open>
  A parser for the examples: it agrees with \<^verbatim>\<open>JSON.parse\<close> on the four texts of its table
  and on the text \<^verbatim>\<open>{\<close>, which is not valid JSON; it is applied to no other text.
\<close>

definition sample_texts :: "(string \<times> json) list" where
  \<open>sample_texts =
     [(''{"foo": "one"}'', JObj [(''foo'', JStr ''one'')]),
      (''{"foo": "two"}'', JObj [(''foo'', JStr ''two'')]),
      (''{"foo": "three"}'', JObj [(''foo'', JStr ''three'')]),
      (''{"bar": "x"}'', JObj [(''bar'', JStr ''x'')])]\<close>

definition sample_parse :: parser where
  "sample_parse text =
     (case map_of sample_texts text of
        Some v \<Rightarrow> Inr v
      | None \<Rightarrow> Inl ''Unexpected end of JSON input'')"

section \<open>Candidate paths\<close>

lemma slice_last_slash: "slice_last d = ''/'' \<longleftrightarrow> d \<noteq> [] \<and> last d = CHR ''/''"
  by (simp add: slice_last_def)

lemma candidatePath_eq:
  "candidatePath language dir =
     (if dir \<noteq> [] \<and> last dir = CHR ''/'' then dir else dir @ ''/'') @ language @ ''.json''"
  by (simp add: candidatePath_def slice_last_slash)

lemma candidatePath_suffix: "suffix (''/'' @ language @ ''.json'') (candidatePath language dir)"
proof (cases "dir \<noteq> [] \<and> last dir = CHR ''/''")
  case True
  then obtain r where r: "dir = r @ ''/''"
    by (metis append_butlast_last_id)
  have "candidatePath language dir = r @ (''/'' @ language @ ''.json'')"
    unfolding candidatePath_eq using True by (simp add: r)
  then show ?thesis
    unfolding suffix_def by blast
next
  case False
  then have "candidatePath language dir = dir @ (''/'' @ language @ ''.json'')"
    unfolding candidatePath_eq by simp
  then show ?thesis
    unfolding suffix_def by blast
qed

text \<open>
  C9 (as amended): the path resolver returns one candidate per base directory, in the
  order of the input and without removing duplicates. Each candidate is the directory,
  followed by \<^verbatim>\<open>/\<close> only when the directory does not already end with \<^verbatim>\<open>/\<close>, followed by
  the language and \<^verbatim>\<open>.json\<close>. A directory that already ends with \<^verbatim>\<open>/\<close> is taken as it
  is, so several trailing separators are kept.
\<close>

theorem paths_candidates:
  "paths language langPaths =
     map (\<lambda>dir. (if dir \<noteq> [] \<and> last dir = CHR ''/'' then dir else dir @ ''/'')
                 @ language @ ''.json'') langPaths
   \<and> length (paths language langPaths) = length langPaths
   \<and> (\<forall>p\<in>set (paths language langPaths). suffix (''/'' @ language @ ''.json'') p)"
  using candidatePath_eq candidatePath_suffix by (simp add: paths_def)

theorem paths_candidates_witness:
  "paths ''en'' [''src/lang'', ''src/lang/'', ''src/lang''] =
     [''src/lang/en.json'', ''src/lang/en.json'', ''src/lang/en.json'']
   \<and> length (paths ''en'' [''src/lang'', ''src/lang/'', ''src/lang'']) = 3
   \<and> suffix ''/en.json'' ''src/lang/en.json''"
  using paths_candidates [of "''en''" "[''src/lang'', ''src/lang/'', ''src/lang'']"]
  by simp

text \<open>
  The claim as stated fails for a directory that ends with two separators: the candidate
  keeps both.
\<close>

theorem paths_double_separator_counterexample:
  "paths ''en'' [''a//''] = [''a//'' @ ''en'' @ ''.json''] \<and> \<not> spec_oneSeparator ''a//''"
  by (simp add: paths_def candidatePath_def slice_last_def spec_oneSeparator_def)

section \<open>The relative path of a file\<close>

text \<open>
  When neither marker occurs in a path, both searches return \<open>-1\<close> and the relative path
  is the path without its first four characters.
\<close>

lemma lastIndexOf_absent:
  assumes "\<not> sublist pat s"
  shows "lastIndexOf s pat = - 1"
proof -
  have "take (length pat) (drop i s) \<noteq> pat" for i
  proof
    assume eq: "take (length pat) (drop i s) = pat"
    have "s = take i s @ take (length pat) (drop i s) @ drop (length pat) (drop i s)"
      by (metis append_take_drop_id)
    then have "s = take i s @ pat @ drop (length pat) (drop i s)"
      by (simp only: eq)
    then show False
      using assms unfolding sublist_def by blast
  qed
  then have "filter (\<lambda>i. take (length pat) (drop i s) = pat) (rev [0..<Suc (length s)]) = []"
    by (simp add: filter_empty_conv del: upt_Suc)
  then show ?thesis
    by (simp add: lastIndexOf_def del: upt_Suc)
qed

lemma relPath_without_marker:
  assumes "\<not> sublist ''/src/'' p" and "\<not> sublist ([backslash] @ ''src'' @ [backslash]) p"
  shows "relPath p = drop 4 p"
  using assms by (simp add: relPath_def lastIndexOf_absent substr_def del: upt_Suc)

text \<open>
  C5: for a path that contains the marker \<^verbatim>\<open>/src/\<close> in neither style of separator, the
  claim expects the whole path as relative path. Both searches return \<open>-1\<close> there and
  \<^verbatim>\<open>substr(-1 + 5)\<close> removes the first four characters: the path \<^verbatim>\<open>lang/en.json\<close> is
  stored under \<^verbatim>\<open>/en.json\<close>, which has no prefix, where the whole path would have the
  prefix \<^verbatim>\<open>core\<close>, and the absolute path \<^verbatim>\<open>/opt/app/lang/en.json\<close> is stored under
  \<^verbatim>\<open>/app/lang/en.json\<close>.
\<close>

theorem relPath_no_marker_example:
  "\<not> sublist ''/src/'' ''lang/en.json''
   \<and> \<not> sublist ([backslash] @ ''src'' @ [backslash]) ''lang/en.json''
   \<and> relPath ''lang/en.json'' = ''/en.json''
   \<and> filePrefix (relPath ''lang/en.json'') = None
   \<and> filePrefix ''lang/en.json'' = Some ''core''
   \<and> \<not> sublist ''/src/'' ''/opt/app/lang/en.json''
   \<and> \<not> sublist ([backslash] @ ''src'' @ [backslash]) ''/opt/app/lang/en.json''
   \<and> relPath ''/opt/app/lang/en.json'' = ''/app/lang/en.json''"
  by (simp add: sublist_code relPath_def lastIndexOf_def substr_def backslash_def upt_rec
      filePrefix_def split_def pop_def switchPrefix_def idx_def isSep_def)

section \<open>The namespace prefix\<close>

text \<open>
  Splitting a path: a text without separator is one segment, and a path written as
  segments joined with \<^verbatim>\<open>/\<close> splits into these segments.
\<close>

lemma splitAcc_no_separator: "\<forall>c\<in>set s. \<not> isSep c \<Longrightarrow> splitAcc cur s = [cur @ s]"
  by (induction s arbitrary: cur) simp_all

lemma splitAcc_segment:
  "\<forall>c\<in>set s. \<not> isSep c \<Longrightarrow> splitAcc cur (s @ CHR ''/'' # rest) = (cur @ s) # splitAcc [] rest"
  by (induction s arbitrary: cur) (simp_all add: isSep_def)

lemma split_join_segments:
  assumes "segs \<noteq> []" and "\<forall>s\<in>set segs. \<forall>c\<in>set s. \<not> isSep c"
  shows "split (join ''/'' segs) = segs"
  using assms
proof (induction "''/''" segs rule: join.induct)
  case 1
  then show ?case by simp
next
  case (2 x)
  then show ?case
    using splitAcc_no_separator [of x "[]"] by (simp add: split_def)
next
  case (3 x y ys)
  then have "split (join ''/'' (y # ys)) = y # ys" by simp
  moreover have "splitAcc [] (x @ CHR ''/'' # join ''/'' (y # ys))
      = ([] @ x) # splitAcc [] (join ''/'' (y # ys))"
    using 3 by (intro splitAcc_segment) simp
  ultimately show ?case
    by (simp add: split_def)
qed

lemma switch_empty: "switchPrefix [] = None"
  by (simp add: switchPrefix_def idx_def)

lemma switch_lang: "switchPrefix (''lang'' # rest) = Some ''core''"
  by (simp add: switchPrefix_def idx_def)

lemma switch_core:
  "switchPrefix (''core'' # rest) =
     (case rest of
        [] \<Rightarrow> Some ''core.undefined''
      | s # _ \<Rightarrow> if s = ''lang'' then Some ''core'' else Some (''core.'' @ s))"
  by (cases rest) (simp_all add: switchPrefix_def idx_def)

lemma switch_addon:
  "switchPrefix (''addon'' # rest) = Some (''addon.'' @ join ''_'' (butlast rest))"
  by (cases rest) (simp_all add: switchPrefix_def idx_def pop_def shift_def)

lemma switch_assets:
  "switchPrefix (''assets'' # rest) =
     (case rest of [] \<Rightarrow> Some ''assets.undefined'' | s # _ \<Rightarrow> Some (''assets.'' @ s))"
  by (cases rest) (simp_all add: switchPrefix_def idx_def)

lemma switch_other:
  "root \<noteq> ''lang'' \<Longrightarrow> root \<noteq> ''core'' \<Longrightarrow> root \<noteq> ''addon'' \<Longrightarrow> root \<noteq> ''assets''
   \<Longrightarrow> switchPrefix (root # rest) = None"
  by (simp add: switchPrefix_def idx_def)

text \<open>The switch of \<^verbatim>\<open>treatMergedData\<close>, case by case, on a path split into segments.\<close>

lemma filePrefix_dispatch:
  assumes "split filepath = segs @ [filename]"
  shows "filePrefix filepath =
     (case segs of
        [] \<Rightarrow> None
      | root # rest \<Rightarrow>
          if root = ''lang'' then Some ''core''
          else if root = ''core'' then
            (case rest of
               [] \<Rightarrow> Some ''core.undefined''
             | s # _ \<Rightarrow> if s = ''lang'' then Some ''core'' else Some (''core.'' @ s))
          else if root = ''addon'' then Some (''addon.'' @ join ''_'' (butlast rest))
          else if root = ''assets'' then
            (case rest of [] \<Rightarrow> Some ''assets.undefined'' | s # _ \<Rightarrow> Some (''assets.'' @ s))
          else None)"
proof -
  have p: "pop (split filepath) = segs"
    using assms by (simp add: pop_def)
  show ?thesis
  proof (cases segs)
    case Nil
    then show ?thesis using p by (simp add: filePrefix_def switch_empty)
  next
    case (Cons root rest)
    then show ?thesis
      using p
      by (simp add: filePrefix_def switch_lang switch_core switch_addon switch_assets switch_other)
  qed
qed

lemma addon_prefix_drops_last:
  assumes "split filepath = ''addon'' # rest @ [filename]"
  shows "filePrefix filepath = Some (''addon.'' @ join ''_'' (butlast rest))"
proof -
  have "pop (split filepath) = ''addon'' # rest"
    using assms by (simp add: pop_def butlast_append)
  then show ?thesis
    by (simp add: filePrefix_def switch_addon)
qed

lemmas eval_prefix = filePrefix_def split_def pop_def isSep_def backslash_def
  switch_lang switch_core switch_addon switch_assets
lemmas eval_merge = mergeData_def mergeFile_def truthy_def addProperties_def

text \<open>
  C1: the claim's dispatch gives a path with root \<^verbatim>\<open>addon\<close> the prefix \<^verbatim>\<open>addon.\<close> followed
  by the segments that remain after dropping \<^verbatim>\<open>addon\<close> and a trailing \<^verbatim>\<open>lang\<close>, joined with
  \<^verbatim>\<open>_\<close>. The code drops the last segment without looking at it. The file
  \<^verbatim>\<open>/app/src/addon/mod_assign/feedback/en.json\<close> has the relative path
  \<^verbatim>\<open>addon/mod_assign/feedback/en.json\<close>; its prefix is \<^verbatim>\<open>addon.mod_assign\<close>, not
  \<^verbatim>\<open>addon.mod_assign_feedback\<close>, and its key \<^verbatim>\<open>baz\<close> is merged as \<^verbatim>\<open>addon.mod_assign.baz\<close>,
  the key that \<^verbatim>\<open>baz\<close> of \<^verbatim>\<open>addon/mod_assign/lang/en.json\<close> gets, as the claim's example says.
\<close>

theorem addon_subfolder_prefix_example:
  "relPath ''/app/src/addon/mod_assign/feedback/en.json'' = ''addon/mod_assign/feedback/en.json''
   \<and> filePrefix ''addon/mod_assign/feedback/en.json'' = Some ''addon.mod_assign''
   \<and> filePrefix ''addon/mod_assign/feedback/en.json'' \<noteq> Some ''addon.mod_assign_feedback''
   \<and> mergeData [(''addon/mod_assign/feedback/en.json'', JObj [(''baz'', JStr ''v'')])]
       = [(''addon.mod_assign.baz'', JStr ''v'')]
   \<and> filePrefix ''addon/mod_assign/lang/en.json'' = Some ''addon.mod_assign''
   \<and> mergeData [(''addon/mod_assign/lang/en.json'', JObj [(''baz'', JStr ''v'')])]
       = [(''addon.mod_assign.baz'', JStr ''v'')]"
  by (simp add: relPath_def lastIndexOf_def substr_def upt_rec eval_prefix eval_merge)

text \<open>
  C4: the claim keeps the segment \<^verbatim>\<open>foo\<close> of \<^verbatim>\<open>addon/foo/en.json\<close>, for the prefix
  \<^verbatim>\<open>addon.foo\<close>. The code drops \<^verbatim>\<open>foo\<close> as it drops \<^verbatim>\<open>lang\<close>: the file
  \<^verbatim>\<open>/app/src/addon/foo/en.json\<close> has the relative path \<^verbatim>\<open>addon/foo/en.json\<close>, its prefix is
  \<^verbatim>\<open>addon.\<close> and its key \<^verbatim>\<open>baz\<close> is merged as \<^verbatim>\<open>addon..baz\<close>. The prefix \<^verbatim>\<open>addon.foo\<close> is
  the one of \<^verbatim>\<open>addon/foo/lang/en.json\<close>.
\<close>

theorem addon_foo_example:
  "relPath ''/app/src/addon/foo/en.json'' = ''addon/foo/en.json''
   \<and> filePrefix ''addon/foo/en.json'' = Some ''addon.''
   \<and> filePrefix ''addon/foo/en.json'' \<noteq> Some ''addon.foo''
   \<and> mergeData [(''addon/foo/en.json'', JObj [(''baz'', JStr ''v'')])] = [(''addon..baz'', JStr ''v'')]
   \<and> filePrefix ''addon/foo/lang/en.json'' = Some ''addon.foo''"
  by (simp add: relPath_def lastIndexOf_def substr_def upt_rec eval_prefix eval_merge)

section \<open>Objects and the merge\<close>

lemma objSet_fresh: "k \<notin> fst ` set ob \<Longrightarrow> objSet ob k v = ob @ [(k, v)]"
  by (induction ob) auto

lemma objSet_present: "k \<in> fst ` set ob \<Longrightarrow> map fst (objSet ob k v) = map fst ob"
proof (induction ob)
  case Nil
  then show ?case by simp
next
  case (Cons a ob)
  show ?case
  proof (cases "fst a = k")
    case True
    then show ?thesis by (cases a) simp
  next
    case False
    then have "k \<in> fst ` set ob" using Cons.prems by auto
    then show ?thesis using False Cons.IH by (cases a) simp
  qed
qed

lemma keys_objSet:
  "map fst (objSet ob k v) = (if k \<in> fst ` set ob then map fst ob else map fst ob @ [k])"
  by (simp add: objSet_fresh objSet_present)

lemma map_of_objSet: "map_of (objSet ob k v) = (map_of ob)(k \<mapsto> v)"
  by (induction ob) (auto simp: fun_eq_iff)

lemma distinct_objSet: "distinct (map fst ob) \<Longrightarrow> distinct (map fst (objSet ob k v))"
  by (simp add: keys_objSet)

lemma setAll_Nil: "setAll t [] = t"
  by (simp add: setAll_def)

lemma setAll_Cons: "setAll t ((k, v) # kvs) = setAll (objSet t k v) kvs"
  by (simp add: setAll_def)

lemma setAll_append: "setAll t (xs @ ys) = setAll (setAll t xs) ys"
  by (simp add: setAll_def)

lemma map_of_setAll: "map_of (setAll t kvs) = map_of t ++ map_of (rev kvs)"
proof (induction kvs arbitrary: t)
  case Nil
  then show ?case by (simp add: setAll_Nil)
next
  case (Cons a kvs)
  obtain k v where a: "a = (k, v)" by (cases a)
  show ?case
    by (auto simp: a setAll_Cons Cons.IH map_of_objSet fun_eq_iff map_add_def
        split: option.splits)
qed

lemma keys_setAll: "fst ` set (setAll t kvs) = fst ` set t \<union> fst ` set kvs"
proof (induction kvs arbitrary: t)
  case Nil
  then show ?case by (simp add: setAll_Nil)
next
  case (Cons a kvs)
  obtain k v where a: "a = (k, v)" by (cases a)
  have "fst ` set (objSet t k v) = insert k (fst ` set t)"
    using arg_cong [OF keys_objSet [of t k v], of set] by (auto split: if_splits)
  then show ?case
    by (simp add: a setAll_Cons Cons.IH)
qed

lemma distinct_setAll: "distinct (map fst t) \<Longrightarrow> distinct (map fst (setAll t kvs))"
proof (induction kvs arbitrary: t)
  case Nil
  then show ?case by (simp add: setAll_Nil)
next
  case (Cons a kvs)
  obtain k v where a: "a = (k, v)" by (cases a)
  show ?case
    using Cons.prems by (simp add: a setAll_Cons Cons.IH distinct_objSet)
qed

lemma switchPrefix_nonempty: "switchPrefix segs \<noteq> Some []"
  by (simp add: switchPrefix_def)

lemma truthy_filePrefix: "truthy (filePrefix p) \<longleftrightarrow> filePrefix p \<noteq> None"
  by (simp add: truthy_def filePrefix_def switchPrefix_nonempty)

lemma foldl_prefixed:
  "foldl (\<lambda>t (property, v). objSet t (pfx @ property) v) t kvs
     = setAll t (map (\<lambda>(k, v). (pfx @ k, v)) kvs)"
  by (induction kvs arbitrary: t) (auto simp: setAll_def)

lemma addProperties_setAll:
  "addProperties t src pfx = setAll t (map (\<lambda>(k, v). (pfx @ k, v)) (props src))"
  by (simp add: addProperties_def foldl_prefixed)

lemma mergeFile_contribution: "mergeFile t e = setAll t (contribution e)"
proof (cases "filePrefix (fst e)")
  case None
  then show ?thesis
    by (simp add: mergeFile_def truthy_def contribution_def setAll_Nil)
next
  case (Some pfx)
  then show ?thesis
    using truthy_filePrefix [of "fst e"]
    by (simp add: mergeFile_def contribution_def addProperties_setAll case_prod_beta)
qed

lemma foldl_mergeFile: "foldl mergeFile t d = setAll t (concat (map contribution d))"
  by (induction d arbitrary: t) (simp_all add: setAll_Nil mergeFile_contribution setAll_append)

lemma mergeData_contributions: "mergeData d = setAll [] (concat (map contribution d))"
  by (simp add: mergeData_def foldl_mergeFile)

lemma distinct_mergeData: "distinct (map fst (mergeData d))"
  by (simp add: mergeData_contributions distinct_setAll)

lemma keys_contribution:
  "fst ` set (contribution (p, v)) =
     (case filePrefix p of
        None \<Rightarrow> {}
      | Some pfx \<Rightarrow> (\<lambda>k. pfx @ ''.'' @ k) ` fst ` set (props v))"
  by (force simp: contribution_def split: option.splits)

subsection \<open>The enumeration order of property names\<close>

text \<open>
  JavaScript enumerates the property names that are array indices before the other
  names, whatever the order of creation. This does not affect the model: a relative
  path that is an array index contains no separator and has no prefix, the fragments
  without prefix can be removed from the accumulated data without changing the merged
  table, and every key of the merged table contains a dot, so it is no array index.
\<close>

lemma no_separator_no_prefix: "\<forall>c\<in>set p. \<not> isSep c \<Longrightarrow> filePrefix p = None"
  by (simp add: filePrefix_def split_def splitAcc_no_separator pop_def switch_empty)

lemma contribution_unprefixed: "filePrefix (fst e) = None \<Longrightarrow> contribution e = []"
  by (simp add: contribution_def)

lemma mergeData_ignores_unprefixed:
  "mergeData (filter (\<lambda>e. filePrefix (fst e) \<noteq> None) d) = mergeData d"
proof -
  have "concat (map contribution (filter (\<lambda>e. filePrefix (fst e) \<noteq> None) d))
      = concat (map contribution d)"
    by (induction d) (simp_all add: contribution_unprefixed)
  then show ?thesis
    by (simp add: mergeData_contributions)
qed

lemma merged_key_dotted:
  assumes "k \<in> fst ` set (mergeData d)"
  shows "CHR ''.'' \<in> set k"
proof -
  from assms obtain p v where "k \<in> fst ` set (contribution (p, v))"
    by (auto simp: mergeData_contributions keys_setAll)
  then show ?thesis
    by (auto simp: keys_contribution split: option.splits)
qed

lemmas eval_file = treatFiles_def treatFile_def initial_def relPath_def lastIndexOf_def
  substr_def upt_rec sample_parse_def sample_texts_def fragment_def fragments_def

section \<open>The ordered object\<close>

lemma foldl_order:
  assumes "distinct ks" and "set ks \<inter> fst ` set acc = {}" and "set ks \<subseteq> fst ` set m"
  shows "foldl (\<lambda>ordered key. case map_of m key of
                                 Some v \<Rightarrow> objSet ordered key v
                               | None \<Rightarrow> ordered) acc ks
         = acc @ map (\<lambda>k. (k, the (map_of m k))) ks"
  using assms
proof (induction ks arbitrary: acc)
  case Nil
  then show ?case by simp
next
  case (Cons k ks)
  from Cons.prems have "k \<in> fst ` set m" by simp
  then obtain v where v: "map_of m k = Some v"
    by (metis map_of_eq_None_iff not_Some_eq)
  from Cons.prems have fresh: "k \<notin> fst ` set acc" by auto
  have "set ks \<inter> fst ` set (acc @ [(k, v)]) = {}"
    using Cons.prems by auto
  then have "foldl (\<lambda>ordered key. case map_of m key of
                                 Some v \<Rightarrow> objSet ordered key v
                               | None \<Rightarrow> ordered) (acc @ [(k, v)]) ks
         = (acc @ [(k, v)]) @ map (\<lambda>k. (k, the (map_of m k))) ks"
    using Cons.prems by (intro Cons.IH) auto
  then show ?case
    by (simp add: v objSet_fresh [OF fresh])
qed

lemma orderKeys_eq:
  assumes "distinct (map fst m)"
  shows "orderKeys m = map (\<lambda>k. (k, the (map_of m k))) (sort (map fst m))"
  unfolding orderKeys_def using assms by (subst foldl_order) simp_all

lemma keys_orderKeys: "distinct (map fst m) \<Longrightarrow> map fst (orderKeys m) = sort (map fst m)"
  by (simp add: orderKeys_eq o_def)

lemma map_of_keyed:
  "map_of (map (\<lambda>k. (k, f k)) ks) x = (if x \<in> set ks then Some (f x) else None)"
  by (induction ks) auto

lemma map_of_orderKeys:
  assumes "distinct (map fst m)"
  shows "map_of (orderKeys m) = map_of m"
proof
  fix x
  show "map_of (orderKeys m) x = map_of m x"
  proof (cases "x \<in> fst ` set m")
    case True
    then obtain v where "map_of m x = Some v"
      by (metis map_of_eq_None_iff not_Some_eq)
    then show ?thesis using True assms by (simp add: orderKeys_eq map_of_keyed)
  next
    case False
    then have "map_of m x = None" by (simp add: map_of_eq_None_iff)
    then show ?thesis using False assms by (simp add: orderKeys_eq map_of_keyed)
  qed
qed

lemma strict_sorted_orderKeys:
  assumes "distinct (map fst m)"
  shows "sorted_wrt (<) (map fst (orderKeys m))"
  using assms by (simp add: keys_orderKeys strict_sorted_iff)

lemma set_orderKeys:
  assumes "distinct (map fst m)"
  shows "set (orderKeys m) = set m"
proof -
  have "distinct (map fst (orderKeys m))"
    using assms by (simp add: keys_orderKeys)
  then show ?thesis
    using assms map_of_orderKeys [OF assms] by (simp add: map_of_inject_set)
qed

lemma orderKeys_determined:
  assumes "distinct (map fst m)" and "distinct (map fst m')" and "map_of m' = map_of m"
  shows "orderKeys m' = orderKeys m"
proof -
  have "set (map fst m') = set (map fst m)"
    using assms(3) by (metis dom_map_of_conv_image_fst list.set_map)
  then have "sort (map fst m') = sort (map fst m)"
    using assms(1,2) by (metis distinct_remdups_id sorted_list_of_set_sort_remdups)
  then show ?thesis
    using assms by (simp add: orderKeys_eq)
qed

subsection \<open>Keys with code units of any size\<close>

lemma less_map_strict_mono:
  fixes f :: "'a::linorder \<Rightarrow> 'b::linorder"
  assumes "strict_mono f"
  shows "map f xs < map f ys \<longleftrightarrow> xs < ys"
proof (induction xs arbitrary: ys)
  case Nil
  then show ?case by (cases ys) simp_all
next
  case (Cons x xs)
  then show ?case
    using assms by (cases ys) (simp_all add: strict_mono_less strict_mono_eq)
qed

lemma strict_mono_unat: "strict_mono (unat :: 16 word \<Rightarrow> nat)"
  by (simp add: strict_mono_def word_less_nat_alt)

lemma codepoints_below_surrogates:
  "\<forall>c\<in>set k. c < 0xD800 \<Longrightarrow> codepoints k = map unat k"
  by (induction k rule: codepoints.induct) (auto simp: isHigh_def)

lemma strict_mono_unit: "strict_mono (\<lambda>c. of_nat (of_char c) :: 16 word)"
proof -
  have "unat (of_nat (of_char c) :: 16 word) = of_char c" for c :: char
  proof -
    have "(of_char c :: nat) < 65536"
      using nat_of_char_less_256 [of c] by linarith
    then show ?thesis
      by (simp add: unat_of_nat)
  qed
  then show ?thesis
    by (simp add: strict_mono_def word_less_nat_alt less_char_def)
qed

lemma strict_mono_utf16_of: "strict_mono utf16_of"
  unfolding strict_mono_def utf16_of_def
  using less_map_strict_mono [OF strict_mono_unit] by blast

lemma insort_map_strict_mono:
  fixes f :: "'a::linorder \<Rightarrow> 'b::linorder"
  assumes "strict_mono f"
  shows "insort (f x) (map f ys) = map f (insort x ys)"
  using assms by (induction ys) (simp_all add: strict_mono_less_eq)

lemma sort_map_strict_mono:
  fixes f :: "'a::linorder \<Rightarrow> 'b::linorder"
  assumes "strict_mono f"
  shows "sort (map f xs) = map f (sort xs)"
  by (induction xs) (simp_all add: insort_map_strict_mono [OF assms])

lemma map_of_apfst:
  assumes "inj f"
  shows "map_of (map (apfst f) m) (f k) = map_of m k"
  using assms by (induction m) (auto simp: inj_eq)

lemma orderKeys_map_keys:
  fixes f :: "'a::linorder \<Rightarrow> 'b::linorder"
  assumes "strict_mono f" and "distinct (map fst m)"
  shows "orderKeys (map (apfst f) m) = map (apfst f) (orderKeys m)"
proof -
  have inj: "inj f"
    using assms(1) by (rule strict_mono_imp_inj_on)
  have keys: "map fst (map (apfst f) m) = map f (map fst m)"
    by (simp add: o_def)
  have "inj_on f (set (map fst m))"
    using inj by (rule inj_on_subset) simp
  then have "distinct (map f (map fst m))"
    using assms(2) by (simp only: distinct_map)
  then have "distinct (map fst (map (apfst f) m))"
    by (simp only: keys)
  then have "orderKeys (map (apfst f) m)
      = map (\<lambda>k. (k, the (map_of (map (apfst f) m) k))) (sort (map f (map fst m)))"
    unfolding keys [symmetric] by (rule orderKeys_eq)
  also have "\<dots>
      = map (\<lambda>k. (k, the (map_of (map (apfst f) m) k))) (map f (sort (map fst m)))"
    by (simp only: sort_map_strict_mono [OF assms(1)])
  also have "\<dots> = map (\<lambda>k. (f k, the (map_of m k))) (sort (map fst m))"
    by (simp add: o_def map_of_apfst [OF inj])
  also have "\<dots> = map (apfst f) (orderKeys m)"
    by (simp add: orderKeys_eq [OF assms(2)] o_def)
  finally show ?thesis .
qed

lemma codepoint_order_below_surrogates:
  fixes m :: "(utf16 \<times> 'v) list"
  assumes "distinct (map fst m)" and "\<forall>k\<in>fst ` set m. \<forall>c\<in>set k. c < 0xD800"
  shows "sorted_wrt (\<lambda>a b. codepoints a < codepoints b) (map fst (orderKeys m))"
proof -
  have s: "sorted_wrt (<) (map fst (orderKeys m))"
    using assms(1) by (rule strict_sorted_orderKeys)
  have keys: "set (map fst (orderKeys m)) = fst ` set m"
    using assms(1) by (simp add: keys_orderKeys)
  have step: "codepoints a < codepoints b"
    if "a \<in> set (map fst (orderKeys m))" and "b \<in> set (map fst (orderKeys m))" and "a < b"
    for a b
  proof -
    have "\<forall>c\<in>set a. c < 0xD800" and "\<forall>c\<in>set b. c < 0xD800"
      using that(1,2) assms(2) unfolding keys by blast+
    then have "codepoints a = map unat a" and "codepoints b = map unat b"
      by (simp_all add: codepoints_below_surrogates)
    then show ?thesis
      using that(3) by (simp add: less_map_strict_mono [OF strict_mono_unat])
  qed
  show ?thesis
    by (rule sorted_wrt_mono_rel [OF step s])
qed

text \<open>
  C3 (as amended): the object that is serialised holds exactly the entries of the merged
  table, and its keys are in strictly ascending lexicographic order of their UTF-16 code
  units, by full string comparison; it depends on the merged table as a mapping only, not
  on the order in which the fragments were ingested. This holds for every table whose
  keys are strings of 16-bit code units and for the merged table of every accumulated
  data, whose ordered object is the one of the same table with its keys written in code
  units. The order of the code units is the order of the code points when every code
  unit of every key is below \<open>0xD800\<close>.
\<close>

theorem orderKeys_code_unit_order:
  fixes m m' :: "(utf16 \<times> 'v) list"
  assumes "distinct (map fst m)"
  shows "sorted_wrt (<) (map fst (orderKeys m))
   \<and> set (orderKeys m) = set m
   \<and> (distinct (map fst m') \<and> map_of m' = map_of m \<longrightarrow> orderKeys m' = orderKeys m)
   \<and> ((\<forall>k\<in>fst ` set m. \<forall>c\<in>set k. c < 0xD800) \<longrightarrow>
        sorted_wrt (\<lambda>a b. codepoints a < codepoints b) (map fst (orderKeys m)))
   \<and> sorted_wrt (<) (map fst (mergedOrdered d))
   \<and> set (mergedOrdered d) = set (mergeData d)
   \<and> (map_of (mergeData d') = map_of (mergeData d) \<longrightarrow> mergedOrdered d' = mergedOrdered d)
   \<and> map (apfst utf16_of) (mergedOrdered d) = orderKeys (map (apfst utf16_of) (mergeData d))"
proof -
  have a: "sorted_wrt (<) (map fst (orderKeys m))"
    using assms by (rule strict_sorted_orderKeys)
  have b: "set (orderKeys m) = set m"
    using assms by (rule set_orderKeys)
  have c: "distinct (map fst m') \<and> map_of m' = map_of m \<longrightarrow> orderKeys m' = orderKeys m"
  proof (intro impI)
    assume "distinct (map fst m') \<and> map_of m' = map_of m"
    then show "orderKeys m' = orderKeys m"
      using assms by (intro orderKeys_determined) simp_all
  qed
  have e: "(\<forall>k\<in>fst ` set m. \<forall>c\<in>set k. c < 0xD800) \<longrightarrow>
        sorted_wrt (\<lambda>a b. codepoints a < codepoints b) (map fst (orderKeys m))"
  proof (intro impI)
    assume "\<forall>k\<in>fst ` set m. \<forall>c\<in>set k. c < 0xD800"
    with assms show "sorted_wrt (\<lambda>a b. codepoints a < codepoints b) (map fst (orderKeys m))"
      by (rule codepoint_order_below_surrogates)
  qed
  have f: "sorted_wrt (<) (map fst (mergedOrdered d))"
    unfolding mergedOrdered_def using distinct_mergeData by (rule strict_sorted_orderKeys)
  have g: "set (mergedOrdered d) = set (mergeData d)"
    unfolding mergedOrdered_def using distinct_mergeData by (rule set_orderKeys)
  have h: "map_of (mergeData d') = map_of (mergeData d) \<longrightarrow> mergedOrdered d' = mergedOrdered d"
  proof (intro impI)
    assume "map_of (mergeData d') = map_of (mergeData d)"
    then show "mergedOrdered d' = mergedOrdered d"
      unfolding mergedOrdered_def
      by (intro orderKeys_determined distinct_mergeData)
  qed
  have i: "map (apfst utf16_of) (mergedOrdered d) = orderKeys (map (apfst utf16_of) (mergeData d))"
    unfolding mergedOrdered_def
    by (rule orderKeys_map_keys [OF strict_mono_utf16_of distinct_mergeData, symmetric])
  show ?thesis
    by (intro conjI a b c e f g h i)
qed

theorem orderKeys_code_unit_order_witness:
  "orderKeys [(utf16_of ''core.'' @ [0xFB01], JNum ''1''),
              (utf16_of ''core.'' @ [0xD800, 0xDC00], JNum ''2''),
              (utf16_of ''addon.x.a'', JNum ''3'')]
     = [(utf16_of ''addon.x.a'', JNum ''3''),
        (utf16_of ''core.'' @ [0xD800, 0xDC00], JNum ''2''),
        (utf16_of ''core.'' @ [0xFB01], JNum ''1'')]
   \<and> sorted_wrt (<) [utf16_of ''addon.x.a'', utf16_of ''core.'' @ [0xD800, 0xDC00],
                      utf16_of ''core.'' @ [0xFB01]]
   \<and> mergedOrdered [(''lang/en.json'', JObj [(''b'', JStr ''x''), (''a'', JStr ''y'')]),
                    (''addon/mod_assign/lang/en.json'', JObj [(''z'', JStr ''w'')])]
     = [(''addon.mod_assign.z'', JStr ''w''), (''core.a'', JStr ''y''), (''core.b'', JStr ''x'')]"
proof -
  let ?m = "[(utf16_of ''core.'' @ [0xFB01], JNum ''1''),
             (utf16_of ''core.'' @ [0xD800, 0xDC00], JNum ''2''),
             (utf16_of ''addon.x.a'', JNum ''3'')]"
  let ?d = "[(''lang/en.json'', JObj [(''b'', JStr ''x''), (''a'', JStr ''y'')]),
             (''addon/mod_assign/lang/en.json'', JObj [(''z'', JStr ''w'')])]"
  have dist: "distinct (map fst ?m)"
    by (simp add: utf16_of_def)
  have o: "orderKeys ?m
     = [(utf16_of ''addon.x.a'', JNum ''3''),
        (utf16_of ''core.'' @ [0xD800, 0xDC00], JNum ''2''),
        (utf16_of ''core.'' @ [0xFB01], JNum ''1'')]"
    by (simp add: utf16_of_def orderKeys_def)
  note t = orderKeys_code_unit_order [OF dist, of ?m ?d ?d]
  have s: "sorted_wrt (<) (map fst (orderKeys ?m))"
    by (rule t [THEN conjunct1])
  have s': "sorted_wrt (<) [utf16_of ''addon.x.a'', utf16_of ''core.'' @ [0xD800, 0xDC00],
                      utf16_of ''core.'' @ [0xFB01]]"
    using s unfolding o by simp
  have md: "mergeData ?d
      = [(''core.b'', JStr ''x''), (''core.a'', JStr ''y''), (''addon.mod_assign.z'', JStr ''w'')]"
    by (simp add: eval_merge eval_prefix)
  have od: "mergedOrdered ?d
      = [(''addon.mod_assign.z'', JStr ''w''), (''core.a'', JStr ''y''), (''core.b'', JStr ''x'')]"
    unfolding mergedOrdered_def md by (simp add: orderKeys_def less_list_code less_eq_list_code)
  show ?thesis
    by (intro conjI o s' od)
qed

text \<open>
  Two keys of a merged table, \<^verbatim>\<open>core.\<close> followed by U+FB01 and \<^verbatim>\<open>core.\<close> followed by
  U+10000, which UTF-16 writes as the surrogates \<open>0xD800\<close> and \<open>0xDC00\<close>: the ordered object
  has the second key first, although its code points and its bytes are the greater ones.
\<close>

theorem code_unit_order_counterexample:
  "map fst (orderKeys [(utf16_of ''core.'' @ [0xFB01], JNum ''1''),
                       (utf16_of ''core.'' @ [0xD800, 0xDC00], JNum ''2'')])
     = [utf16_of ''core.'' @ [0xD800, 0xDC00], utf16_of ''core.'' @ [0xFB01]]
   \<and> codepoints (utf16_of ''core.'' @ [0xFB01]) = [0x63, 0x6F, 0x72, 0x65, 0x2E, 0xFB01]
   \<and> codepoints (utf16_of ''core.'' @ [0xD800, 0xDC00]) = [0x63, 0x6F, 0x72, 0x65, 0x2E, 0x10000]
   \<and> codepoints (utf16_of ''core.'' @ [0xFB01])
       < codepoints (utf16_of ''core.'' @ [0xD800, 0xDC00])
   \<and> spec_bytes (utf16_of ''core.'' @ [0xFB01])
       < spec_bytes (utf16_of ''core.'' @ [0xD800, 0xDC00])"
  by (simp add: utf16_of_def orderKeys_def isHigh_def isLow_def spec_bytes_def spec_utf8_def)

section \<open>Ingesting files\<close>

lemma data_treatFile:
  "data (treatFile parse st f) =
     (case fragment parse f of None \<Rightarrow> data st | Some (p, v) \<Rightarrow> objSet (data st) p v)"
  by (simp add: treatFile_def fragment_def split: contents.splits sum.splits)

lemma console_treatFile_parsed:
  "fragment parse f = Some e \<Longrightarrow> console (treatFile parse st f) = console st"
  by (auto simp: treatFile_def fragment_def split: contents.splits sum.splits)

lemma data_foldl_treatFile:
  "data (foldl (treatFile parse) st fs) = setAll (data st) (fragments parse fs)"
proof (induction fs arbitrary: st)
  case Nil
  then show ?case by (simp add: fragments_def setAll_Nil)
next
  case (Cons f fs)
  show ?case
  proof (cases "fragment parse f")
    case None
    then show ?thesis
      using Cons.IH [of "treatFile parse st f"]
      by (simp add: fragments_def data_treatFile)
  next
    case (Some e)
    then show ?thesis
      using Cons.IH [of "treatFile parse st f"]
      by (cases e) (simp add: fragments_def data_treatFile setAll_Cons)
  qed
qed

lemma data_treatFiles: "data (treatFiles parse fs) = setAll [] (fragments parse fs)"
  by (simp add: treatFiles_def data_foldl_treatFile initial_def)

lemma fragments_append: "fragments parse (xs @ ys) = fragments parse xs @ fragments parse ys"
  by (induction xs) (simp_all add: fragments_def split: option.splits)

lemma fragments_Cons_None: "fragment parse f = None \<Longrightarrow> fragments parse (f # fs) = fragments parse fs"
  by (simp add: fragments_def)


text \<open>
  C6 (as amended): when the contents of a file fail to parse, \<^verbatim>\<open>treatFile\<close> prints one
  diagnostic, the text \<^verbatim>\<open>Error parsing JSON: \<close> followed by the error (its name and the
  underlying message, which the diagnostic therefore contains); the path of the file is
  not part of the diagnostic. The accumulated data is unchanged, the run goes on, and the
  data of the whole run is the one of the run without that file.
\<close>

theorem parse_failure_skipped:
  assumes "contents f = BufferContents text" and "parse text = Inl msg"
  shows "data (treatFile parse st f) = data st
   \<and> console (treatFile parse st f)
       = console st @ [''Error parsing JSON: '' @ errorToString msg]
   \<and> suffix msg (''Error parsing JSON: '' @ errorToString msg)
   \<and> data (treatFiles parse (before @ f # after)) = data (treatFiles parse (before @ after))"
proof -
  have none: "fragment parse f = None"
    using assms by (simp add: fragment_def)
  have "suffix msg (errorToString msg)"
    by (simp add: errorToString_def suffix_def)
  then have "suffix msg (''Error parsing JSON: '' @ errorToString msg)"
    by (rule suffix_appendI)
  then show ?thesis
    using assms none
    by (simp add: treatFile_def data_treatFiles fragments_append fragments_Cons_None)
qed

theorem parse_failure_skipped_witness:
  "data (treatFile sample_parse
           \<lparr>data = [(''lang/en.json'', JObj [(''foo'', JStr ''one'')])], console = []\<rparr>
           \<lparr>path = ''/app/src/core/login/lang/en.json'', contents = BufferContents ''{''\<rparr>)
     = [(''lang/en.json'', JObj [(''foo'', JStr ''one'')])]
   \<and> console (treatFile sample_parse
           \<lparr>data = [(''lang/en.json'', JObj [(''foo'', JStr ''one'')])], console = []\<rparr>
           \<lparr>path = ''/app/src/core/login/lang/en.json'', contents = BufferContents ''{''\<rparr>)
     = [''Error parsing JSON: SyntaxError: Unexpected end of JSON input'']"
  using parse_failure_skipped [of
      "\<lparr>path = ''/app/src/core/login/lang/en.json'', contents = BufferContents ''{''\<rparr>"
      "''{''" sample_parse "''Unexpected end of JSON input''"
      "\<lparr>data = [(''lang/en.json'', JObj [(''foo'', JStr ''one'')])], console = []\<rparr>" "[]" "[]"]
  by (simp add: sample_parse_def sample_texts_def errorToString_def)

text \<open>The diagnostic of a file that fails to parse does not contain its path.\<close>

theorem diagnostic_without_path_counterexample:
  "console (treatFile sample_parse initial
           \<lparr>path = ''/app/src/core/login/lang/en.json'', contents = BufferContents ''{''\<rparr>)
     = [''Error parsing JSON: SyntaxError: Unexpected end of JSON input'']
   \<and> \<not> sublist ''/app/src/core/login/lang/en.json''
           ''Error parsing JSON: SyntaxError: Unexpected end of JSON input''"
  by (simp add: treatFile_def sample_parse_def sample_texts_def errorToString_def initial_def
      sublist_code)










lemma keys_setAll_first:
  "map fst (setAll [] kvs) = rev (remdups (rev (map fst kvs)))"
proof (induction kvs rule: rev_induct)
  case Nil
  then show ?case by (simp add: setAll_Nil)
next
  case (snoc a kvs)
  obtain k v where a: "a = (k, v)" by (cases a)
  have "setAll [] (kvs @ [a]) = objSet (setAll [] kvs) k v"
    by (simp add: a setAll_append setAll_Cons setAll_Nil)
  then show ?case
    using snoc.IH by (simp add: a keys_objSet keys_setAll)
qed

lemma setAll_distinct:
  "distinct (map fst kvs) \<Longrightarrow> fst ` set kvs \<inter> fst ` set t = {} \<Longrightarrow> setAll t kvs = t @ kvs"
proof (induction kvs arbitrary: t)
  case Nil
  then show ?case by (simp add: setAll_Nil)
next
  case (Cons a kvs)
  obtain k v where a: "a = (k, v)" by (cases a)
  have fresh: "k \<notin> fst ` set t"
    using Cons.prems by (auto simp: a)
  have "setAll (t @ [(k, v)]) kvs = (t @ [(k, v)]) @ kvs"
    using Cons.prems by (intro Cons.IH) (auto simp: a)
  then show ?case
    by (simp add: a setAll_Cons objSet_fresh [OF fresh])
qed

lemma keys_contributions:
  "fst ` set (concat (map contribution d)) =
     {pfx @ ''.'' @ k | p v pfx k.
        (p, v) \<in> set d \<and> filePrefix p = Some pfx \<and> k \<in> fst ` set (props v)}"
proof -
  have "fst ` set (concat (map contribution d)) = (\<Union>e\<in>set d. fst ` set (contribution e))"
    by auto
  also have "\<dots> = (\<Union>(p, v)\<in>set d. case filePrefix p of
          None \<Rightarrow> {}
        | Some pfx \<Rightarrow> (\<lambda>k. pfx @ ''.'' @ k) ` fst ` set (props v))"
    by (simp add: keys_contribution [symmetric] case_prod_beta)
  also have "\<dots> = {pfx @ ''.'' @ k | p v pfx k.
        (p, v) \<in> set d \<and> filePrefix p = Some pfx \<and> k \<in> fst ` set (props v)}"
    by (auto split: option.splits) (force+)
  finally show ?thesis .
qed

lemma fragment_in_fragments:
  "e \<in> set (fragments parse fs) \<longleftrightarrow> (\<exists>f\<in>set fs. fragment parse f = Some e)"
  by (induction fs) (auto simp: fragments_def split: option.splits)

text \<open>
  C2 (as amended): the accumulated data holds each relative path once, in the order in
  which the relative paths were first ingested, with the last successfully parsed
  fragment of that relative path. The key set of the merged table is the union, over the
  fragments held in the accumulated data, of the keys of the fragment under its prefix
  (a fragment without prefix contributes nothing), and when two of them produce the same
  fully-qualified key the value is the one of the fragment that comes later in the
  accumulated data. When the successfully parsed fragments have pairwise distinct
  relative paths, the accumulated data is the sequence of all of them, the key set is the
  union over all of them, and the value of a key is the one from the fragment ingested
  last: the merged table is the table of the specification.
\<close>

theorem merged_table_contents:
  "map fst (data (treatFiles parse fs)) = rev (remdups (rev (map fst (fragments parse fs))))
   \<and> map_of (data (treatFiles parse fs)) = map_of (rev (fragments parse fs))
   \<and> fst ` set (mergeData (data (treatFiles parse fs))) =
       {pfx @ ''.'' @ k | p v pfx k.
          (p, v) \<in> set (data (treatFiles parse fs)) \<and> filePrefix p = Some pfx
          \<and> k \<in> fst ` set (props v)}
   \<and> map_of (mergeData (data (treatFiles parse fs))) =
       map_of (rev (concat (map contribution (data (treatFiles parse fs)))))
   \<and> (distinct (map fst (fragments parse fs)) \<longrightarrow>
        data (treatFiles parse fs) = fragments parse fs
        \<and> fst ` set (mergeData (data (treatFiles parse fs))) =
            {pfx @ ''.'' @ k | f p v pfx k.
               f \<in> set fs \<and> fragment parse f = Some (p, v) \<and> filePrefix p = Some pfx
               \<and> k \<in> fst ` set (props v)}
        \<and> map_of (mergeData (data (treatFiles parse fs))) =
            map_of (rev (concat (map contribution (fragments parse fs))))
        \<and> mergeData (data (treatFiles parse fs)) = spec_merged parse fs)"
proof -
  let ?d = "data (treatFiles parse fs)"
  have a: "map fst ?d = rev (remdups (rev (map fst (fragments parse fs))))"
    by (simp add: data_treatFiles keys_setAll_first)
  have b: "map_of ?d = map_of (rev (fragments parse fs))"
    by (simp add: data_treatFiles map_of_setAll)
  have c: "fst ` set (mergeData ?d) =
       {pfx @ ''.'' @ k | p v pfx k.
          (p, v) \<in> set ?d \<and> filePrefix p = Some pfx \<and> k \<in> fst ` set (props v)}"
    by (simp only: mergeData_contributions keys_setAll keys_contributions) simp
  have d: "map_of (mergeData ?d) = map_of (rev (concat (map contribution ?d)))"
    by (simp add: mergeData_contributions map_of_setAll)
  have e: "?d = fragments parse fs" if "distinct (map fst (fragments parse fs))"
    using that by (simp add: data_treatFiles setAll_distinct)
  have f: "{pfx @ ''.'' @ k | p v pfx k.
          (p, v) \<in> set (fragments parse fs) \<and> filePrefix p = Some pfx
          \<and> k \<in> fst ` set (props v)}
        = {pfx @ ''.'' @ k | f p v pfx k.
               f \<in> set fs \<and> fragment parse f = Some (p, v) \<and> filePrefix p = Some pfx
               \<and> k \<in> fst ` set (props v)}"
    unfolding fragment_in_fragments by blast
  have g: "mergeData (fragments parse fs) = spec_merged parse fs"
    by (simp add: mergeData_contributions spec_merged_def)
  have h: "distinct (map fst (fragments parse fs)) \<longrightarrow>
        ?d = fragments parse fs
        \<and> fst ` set (mergeData ?d) =
            {pfx @ ''.'' @ k | f p v pfx k.
               f \<in> set fs \<and> fragment parse f = Some (p, v) \<and> filePrefix p = Some pfx
               \<and> k \<in> fst ` set (props v)}
        \<and> map_of (mergeData ?d) =
            map_of (rev (concat (map contribution (fragments parse fs))))
        \<and> mergeData ?d = spec_merged parse fs"
  proof (intro impI conjI)
    assume dist: "distinct (map fst (fragments parse fs))"
    show "?d = fragments parse fs" by (rule e [OF dist])
    show "fst ` set (mergeData ?d) =
            {pfx @ ''.'' @ k | f p v pfx k.
               f \<in> set fs \<and> fragment parse f = Some (p, v) \<and> filePrefix p = Some pfx
               \<and> k \<in> fst ` set (props v)}"
      using c unfolding e [OF dist] f .
    show "map_of (mergeData ?d) =
            map_of (rev (concat (map contribution (fragments parse fs))))"
      using d unfolding e [OF dist] .
    show "mergeData ?d = spec_merged parse fs"
      unfolding e [OF dist] by (rule g)
  qed
  show ?thesis
    by (intro conjI a b c d h)
qed

theorem merged_table_contents_witness:
  \<open>data (treatFiles sample_parse
       [\<lparr>path = ''/app/src/lang/en.json'', contents = BufferContents ''{"foo": "one"}''\<rparr>,
        \<lparr>path = ''/app/src/addon/x/lang/en.json'', contents = BufferContents ''{"bar": "x"}''\<rparr>])
     = [(''lang/en.json'', JObj [(''foo'', JStr ''one'')]),
        (''addon/x/lang/en.json'', JObj [(''bar'', JStr ''x'')])]
   \<and> spec_merged sample_parse
       [\<lparr>path = ''/app/src/lang/en.json'', contents = BufferContents ''{"foo": "one"}''\<rparr>,
        \<lparr>path = ''/app/src/addon/x/lang/en.json'', contents = BufferContents ''{"bar": "x"}''\<rparr>]
     = [(''core.foo'', JStr ''one''), (''addon.x.bar'', JStr ''x'')]
   \<and> mergeData (data (treatFiles sample_parse
       [\<lparr>path = ''/app/src/lang/en.json'', contents = BufferContents ''{"foo": "one"}''\<rparr>,
        \<lparr>path = ''/app/src/addon/x/lang/en.json'', contents = BufferContents ''{"bar": "x"}''\<rparr>]))
     = [(''core.foo'', JStr ''one''), (''addon.x.bar'', JStr ''x'')]\<close>
proof -
  let ?fs = \<open>[\<lparr>path = ''/app/src/lang/en.json'', contents = BufferContents ''{"foo": "one"}''\<rparr>,
        \<lparr>path = ''/app/src/addon/x/lang/en.json'', contents = BufferContents ''{"bar": "x"}''\<rparr>]\<close>
  have fr: "fragments sample_parse ?fs
     = [(''lang/en.json'', JObj [(''foo'', JStr ''one'')]),
        (''addon/x/lang/en.json'', JObj [(''bar'', JStr ''x'')])]"
    by (simp add: eval_file)
  have sp: "spec_merged sample_parse ?fs
     = [(''core.foo'', JStr ''one''), (''addon.x.bar'', JStr ''x'')]"
    unfolding spec_merged_def fr by (simp add: contribution_def setAll_def eval_prefix)
  have dist: "distinct (map fst (fragments sample_parse ?fs))"
    unfolding fr by simp
  note distinct_case =
    merged_table_contents [of sample_parse ?fs, THEN conjunct2, THEN conjunct2, THEN conjunct2,
      THEN conjunct2, THEN mp, OF dist]
  have d: "data (treatFiles sample_parse ?fs) = fragments sample_parse ?fs"
    by (rule distinct_case [THEN conjunct1])
  have m: "mergeData (data (treatFiles sample_parse ?fs)) = spec_merged sample_parse ?fs"
    by (rule distinct_case [THEN conjunct2, THEN conjunct2, THEN conjunct2])
  show ?thesis
    by (intro conjI trans [OF d fr] sp trans [OF m sp])
qed

text \<open>
  Two files with the same relative path: the key of the first fragment is missing from
  the merged table. Three files, the first and the last with the same relative path and
  the second with the same prefix: the value is the one of the second file, not the one
  of the file ingested last.
\<close>

theorem merged_table_contents_counterexample:
  \<open>fragments sample_parse
       [\<lparr>path = ''/a/src/lang/en.json'', contents = BufferContents ''{"bar": "x"}''\<rparr>,
        \<lparr>path = ''/b/src/lang/en.json'', contents = BufferContents ''{"foo": "one"}''\<rparr>]
     = [(''lang/en.json'', JObj [(''bar'', JStr ''x'')]),
        (''lang/en.json'', JObj [(''foo'', JStr ''one'')])]
   \<and> spec_merged sample_parse
       [\<lparr>path = ''/a/src/lang/en.json'', contents = BufferContents ''{"bar": "x"}''\<rparr>,
        \<lparr>path = ''/b/src/lang/en.json'', contents = BufferContents ''{"foo": "one"}''\<rparr>]
     = [(''core.bar'', JStr ''x''), (''core.foo'', JStr ''one'')]
   \<and> mergeData (data (treatFiles sample_parse
       [\<lparr>path = ''/a/src/lang/en.json'', contents = BufferContents ''{"bar": "x"}''\<rparr>,
        \<lparr>path = ''/b/src/lang/en.json'', contents = BufferContents ''{"foo": "one"}''\<rparr>]))
     = [(''core.foo'', JStr ''one'')]
   \<and> fragments sample_parse
       [\<lparr>path = ''/a/src/lang/en.json'', contents = BufferContents ''{"foo": "one"}''\<rparr>,
        \<lparr>path = ''/a/src/core/lang/en.json'', contents = BufferContents ''{"foo": "two"}''\<rparr>,
        \<lparr>path = ''/b/src/lang/en.json'', contents = BufferContents ''{"foo": "three"}''\<rparr>]
     = [(''lang/en.json'', JObj [(''foo'', JStr ''one'')]),
        (''core/lang/en.json'', JObj [(''foo'', JStr ''two'')]),
        (''lang/en.json'', JObj [(''foo'', JStr ''three'')])]
   \<and> spec_merged sample_parse
       [\<lparr>path = ''/a/src/lang/en.json'', contents = BufferContents ''{"foo": "one"}''\<rparr>,
        \<lparr>path = ''/a/src/core/lang/en.json'', contents = BufferContents ''{"foo": "two"}''\<rparr>,
        \<lparr>path = ''/b/src/lang/en.json'', contents = BufferContents ''{"foo": "three"}''\<rparr>]
     = [(''core.foo'', JStr ''three'')]
   \<and> mergeData (data (treatFiles sample_parse
       [\<lparr>path = ''/a/src/lang/en.json'', contents = BufferContents ''{"foo": "one"}''\<rparr>,
        \<lparr>path = ''/a/src/core/lang/en.json'', contents = BufferContents ''{"foo": "two"}''\<rparr>,
        \<lparr>path = ''/b/src/lang/en.json'', contents = BufferContents ''{"foo": "three"}''\<rparr>]))
     = [(''core.foo'', JStr ''two'')]\<close>
proof -
  let ?fs = \<open>[\<lparr>path = ''/a/src/lang/en.json'', contents = BufferContents ''{"bar": "x"}''\<rparr>,
        \<lparr>path = ''/b/src/lang/en.json'', contents = BufferContents ''{"foo": "one"}''\<rparr>]\<close>
  let ?gs = \<open>[\<lparr>path = ''/a/src/lang/en.json'', contents = BufferContents ''{"foo": "one"}''\<rparr>,
        \<lparr>path = ''/a/src/core/lang/en.json'', contents = BufferContents ''{"foo": "two"}''\<rparr>,
        \<lparr>path = ''/b/src/lang/en.json'', contents = BufferContents ''{"foo": "three"}''\<rparr>]\<close>
  have f1: "fragments sample_parse ?fs
     = [(''lang/en.json'', JObj [(''bar'', JStr ''x'')]),
        (''lang/en.json'', JObj [(''foo'', JStr ''one'')])]"
    by (simp add: eval_file)
  have f2: "spec_merged sample_parse ?fs
     = [(''core.bar'', JStr ''x''), (''core.foo'', JStr ''one'')]"
    unfolding spec_merged_def f1 by (simp add: contribution_def setAll_def eval_prefix)
  have f3: "data (treatFiles sample_parse ?fs) = [(''lang/en.json'', JObj [(''foo'', JStr ''one'')])]"
    unfolding data_treatFiles f1 by (simp add: setAll_def)
  have f4: "mergeData (data (treatFiles sample_parse ?fs)) = [(''core.foo'', JStr ''one'')]"
    unfolding f3 by (simp add: eval_merge eval_prefix)
  have g1: "fragments sample_parse ?gs
     = [(''lang/en.json'', JObj [(''foo'', JStr ''one'')]),
        (''core/lang/en.json'', JObj [(''foo'', JStr ''two'')]),
        (''lang/en.json'', JObj [(''foo'', JStr ''three'')])]"
    by (simp add: eval_file)
  have g2: "spec_merged sample_parse ?gs = [(''core.foo'', JStr ''three'')]"
    unfolding spec_merged_def g1 by (simp add: contribution_def setAll_def eval_prefix)
  have g3: "data (treatFiles sample_parse ?gs)
     = [(''lang/en.json'', JObj [(''foo'', JStr ''three'')]),
        (''core/lang/en.json'', JObj [(''foo'', JStr ''two'')])]"
    unfolding data_treatFiles g1 by (simp add: setAll_def)
  have g4: "mergeData (data (treatFiles sample_parse ?gs)) = [(''core.foo'', JStr ''two'')]"
    unfolding g3 by (simp add: eval_merge eval_prefix)
  show ?thesis
    by (intro conjI f1 f2 f4 g1 g2 g4)
qed

section \<open>Serialisation\<close>





text \<open>A code unit above 127 is encoded in two bytes.\<close>

lemma utf8_two_bytes: "bufferFrom [CHR 0xE9] = [0xC3, 0xA9]"
  by (simp add: bufferFrom_def utf8_def)







text \<open>
  C8: when no file of a run is successfully ingested, the accumulated data is empty and
  \<^verbatim>\<open>treatMergedData\<close> produces the serialisation of the empty object, the two bytes of
  \<^verbatim>\<open>{}\<close>. In \<^verbatim>\<open>run\<close> these are the contents of the joined file as soon as one file went
  through the stream; without any file, \<^verbatim>\<open>run\<close> emits no file.
\<close>

theorem empty_run_serialized:
  assumes "\<forall>f\<in>set fs. fragment parse f = None"
  shows "data (treatFiles parse fs) = []
   \<and> treatMergedData (data (treatFiles parse fs)) = bufferFrom ''{}''
   \<and> bufferFrom ''{}'' = [0x7B, 0x7D]
   \<and> joinedContents parse fs = (if fs = [] then None else Some (bufferFrom ''{}''))"
proof -
  have "fragments parse fs = []"
    using assms by (induction fs) (simp_all add: fragments_def)
  then have d: "data (treatFiles parse fs) = []"
    by (simp add: data_treatFiles setAll_Nil)
  have e: "treatMergedData [] = bufferFrom ''{}''"
    by (simp add: treatMergedData_def mergedOrdered_def mergeData_def orderKeys_def stringify_def)
  have b: "bufferFrom ''{}'' = [0x7B, 0x7D]"
    by (simp add: bufferFrom_def utf8_def)
  show ?thesis
    using d e b by (cases fs) (simp_all add: joinedContents_def)
qed

theorem empty_run_serialized_witness:
  "treatMergedData (data (treatFiles sample_parse
       [\<lparr>path = ''/app/src/lang/en.json'', contents = BufferContents ''{''\<rparr>,
        \<lparr>path = ''/app/src/core/lang/en.json'', contents = NullContents\<rparr>]))
     = [0x7B, 0x7D]
   \<and> joinedContents sample_parse
       [\<lparr>path = ''/app/src/lang/en.json'', contents = BufferContents ''{''\<rparr>,
        \<lparr>path = ''/app/src/core/lang/en.json'', contents = NullContents\<rparr>]
     = Some [0x7B, 0x7D]"
proof -
  let ?fs = "[\<lparr>path = ''/app/src/lang/en.json'', contents = BufferContents ''{''\<rparr>,
        \<lparr>path = ''/app/src/core/lang/en.json'', contents = NullContents\<rparr>]"
  have h: "\<forall>f\<in>set ?fs. fragment sample_parse f = None"
    by (simp add: fragment_def sample_parse_def sample_texts_def)
  note r = empty_run_serialized [OF h]
  have b: "bufferFrom ''{}'' = [0x7B, 0x7D]"
    by (rule r [THEN conjunct2, THEN conjunct2, THEN conjunct1])
  have t: "treatMergedData (data (treatFiles sample_parse ?fs)) = [0x7B, 0x7D]"
    by (rule trans [OF r [THEN conjunct2, THEN conjunct1] b])
  have j: "joinedContents sample_parse ?fs = Some [0x7B, 0x7D]"
    using r [THEN conjunct2, THEN conjunct2, THEN conjunct2] unfolding b by simp
  show ?thesis
    by (intro conjI t j)
qed

end
